theory Spec2Isabelle
  imports Complex_Main "HOL-Library.Word"
begin

unbundle bit_operations_syntax

section \<open>Data model (types.ts, VideoChunker.ts)\<close>

text \<open>
  JavaScript numbers are modelled as real numbers: every claim below is about the
  arithmetic the code writes down, not about rounding. Where the code relies on an
  IEEE value that is no real number (the quotient by zero in \<open>analyzeAudioPeaks\<close>),
  the model has a separate type for it.
\<close>

record DialogueSegment =
  startTime :: real
  endTime :: real
  transcription :: string
  speakerId :: string

datatype ChunkType = SingleSpeaker | MultiSpeaker | Overlap

record VideoChunk =
  startTime :: real
  endTime :: real
  segments :: "DialogueSegment list"
  chunkType :: ChunkType
  speakers :: "string list"

section \<open>VideoChunker.chunkVideo\<close>

text \<open>
  \<open>[...new Set(xs)]\<close>: the distinct elements of \<open>xs\<close> in the order of their first
  occurrence.
\<close>

fun uniq :: "'a list \<Rightarrow> 'a list \<Rightarrow> 'a list" where
  "uniq seen [] = rev seen"
| "uniq seen (x # xs) = (if x \<in> set seen then uniq seen xs else uniq (x # seen) xs)"

text \<open>
  \<open>Math.max(...segments.map(s => s.endTime))\<close>. On an empty argument list JavaScript
  returns \<open>-Infinity\<close>, which is no real number; both call sites of \<open>createChunk\<close> are
  guarded by \<open>currentChunk.length > 0\<close>, so \<open>chunkVideo\<close> never evaluates the empty case and its
  value here is a placeholder.
\<close>

fun maxEndTime :: "DialogueSegment list \<Rightarrow> real" where
  "maxEndTime [] = 0"
| "maxEndTime (s # ss) = fold max (map DialogueSegment.endTime ss) (DialogueSegment.endTime s)"

definition createChunk :: "DialogueSegment list \<Rightarrow> real \<Rightarrow> bool \<Rightarrow> VideoChunk" where
  "createChunk segs start hasOv =
     (let spk = uniq [] (map speakerId segs);
          end = maxEndTime segs;
          ty = (if hasOv then Overlap
                else if length spk > 1 then MultiSpeaker
                else SingleSpeaker)
      in \<lparr> VideoChunk.startTime = start, VideoChunk.endTime = end, segments = segs,
           chunkType = ty, speakers = spk \<rparr>)"

text \<open>The mutable variables of the scan in \<open>chunkVideo\<close>.\<close>

record chunker_state =
  chunks :: "VideoChunk list"
  currentChunk :: "DialogueSegment list"
  currentStartTime :: real
  currentSpeakers :: "string set"
  hasOverlap :: bool

text \<open>
  One iteration of the \<open>for\<close> loop. \<open>prev\<close> is \<open>sorted[i - 1]\<close>, which is
  \<open>undefined\<close> (here \<open>None\<close>) at \<open>i = 0\<close>; \<open>prevSegment && e\<close> is then falsy.
\<close>

definition chunk_step :: "real \<Rightarrow> DialogueSegment option \<Rightarrow> DialogueSegment \<Rightarrow> chunker_state \<Rightarrow> chunker_state" where
  "chunk_step gapThreshold prev seg st =
     (let isOverlap = (case prev of None \<Rightarrow> False
                       | Some p \<Rightarrow> DialogueSegment.startTime seg < DialogueSegment.endTime p);
          hasGap = (case prev of None \<Rightarrow> False
                    | Some p \<Rightarrow> DialogueSegment.startTime seg - DialogueSegment.endTime p > gapThreshold);
          speakerChanged = (currentChunk st \<noteq> [] \<and> speakerId seg \<noteq> speakerId (last (currentChunk st)));
          shouldNewChunk = ((speakerChanged \<and> \<not> isOverlap) \<or> hasGap \<or> (isOverlap \<and> \<not> hasOverlap st))
      in if shouldNewChunk \<and> currentChunk st \<noteq> [] then
           st \<lparr> chunks := chunks st @ [createChunk (currentChunk st) (currentStartTime st) (hasOverlap st)],
                currentChunk := [seg],
                currentStartTime := DialogueSegment.startTime seg,
                currentSpeakers := {speakerId seg},
                hasOverlap := False \<rparr>
         else
           st \<lparr> currentChunk := currentChunk st @ [seg],
                currentSpeakers := insert (speakerId seg) (currentSpeakers st),
                hasOverlap := (if isOverlap then True else hasOverlap st) \<rparr>)"

fun chunk_loop :: "real \<Rightarrow> DialogueSegment option \<Rightarrow> DialogueSegment list \<Rightarrow> chunker_state \<Rightarrow> chunker_state" where
  "chunk_loop gapThreshold prev [] st = st"
| "chunk_loop gapThreshold prev (seg # rest) st =
     chunk_loop gapThreshold (Some seg) rest (chunk_step gapThreshold prev seg st)"

text \<open>
  \<open>chunkVideo(segments, gapThreshold)\<close>; a caller that omits \<open>gapThreshold\<close> gets
  \<open>0.5\<close>. \<open>Array.prototype.sort\<close> is stable, and so is \<open>sort_key\<close>.
\<close>

definition chunk_finish :: "chunker_state \<Rightarrow> VideoChunk list" where
  "chunk_finish st =
     (if currentChunk st \<noteq> []
      then chunks st @ [createChunk (currentChunk st) (currentStartTime st) (hasOverlap st)]
      else chunks st)"

definition chunkVideo :: "DialogueSegment list \<Rightarrow> real \<Rightarrow> VideoChunk list" where
  "chunkVideo segs gapThreshold =
     (case sort_key DialogueSegment.startTime segs of
        [] \<Rightarrow> []
      | s0 # rest \<Rightarrow>
          chunk_finish
            (chunk_loop gapThreshold None (s0 # rest)
               \<lparr> chunks = [], currentChunk = [],
                 currentStartTime = DialogueSegment.startTime s0,
                 currentSpeakers = {}, hasOverlap = False \<rparr>))"

text \<open>
  Two chunks' half-open time ranges \<open>[startTime, endTime)\<close> intersect.
\<close>

definition intervals_overlap :: "VideoChunk \<Rightarrow> VideoChunk \<Rightarrow> bool" where
  "intervals_overlap c d =
     (VideoChunk.startTime c < VideoChunk.endTime d \<and> VideoChunk.startTime d < VideoChunk.endTime c)"

definition seg_before :: "DialogueSegment \<Rightarrow> DialogueSegment \<Rightarrow> bool" where
  "seg_before a b = (DialogueSegment.endTime a \<le> DialogueSegment.startTime b)"

definition chunk_before :: "VideoChunk \<Rightarrow> VideoChunk \<Rightarrow> bool" where
  "chunk_before c d = (VideoChunk.endTime c \<le> VideoChunk.startTime d)"

text \<open>The segments of the examples: speaker, start, end (the text plays no role).\<close>

definition mkSeg :: "string \<Rightarrow> real \<Rightarrow> real \<Rightarrow> DialogueSegment" where
  "mkSeg spk s e = \<lparr> DialogueSegment.startTime = s, DialogueSegment.endTime = e,
                   transcription = [], speakerId = spk \<rparr>"

section \<open>AudioMixer (AudioMixer.ts)\<close>

text \<open>
  One element of the \<open>buffers\<close> argument of \<open>mixAudioBuffers\<close>. \<open>buffer\<close> is
  \<open>buffer.getChannelData(0)\<close>; \<open>volume\<close> is optional and defaults to 1.
\<close>

record AudioClip =
  buffer :: "real list"
  startTime :: real
  speakerId :: string
  volume :: "real option"

text \<open>An entry of \<open>timelineChannels\<close>: the sample range \<open>[start, end)\<close> of a clip.\<close>

record TimelineChannel =
  ch_start :: int
  ch_end :: int
  speakerId :: string

definition targetSampleRate :: real where
  "targetSampleRate = 24000"

text \<open>
  \<open>calculateNormalizedGain\<close> is only called inside the loop over \<open>buffers\<close>, so
  \<open>sourceCount\<close> is at least 1 there.
\<close>

definition calculateNormalizedGain :: "nat \<Rightarrow> real \<Rightarrow> real" where
  "calculateNormalizedGain sourceCount userVolume =
     (let baseGain = 1 / sqrt (real sourceCount) in baseGain * userVolume)"

text \<open>
  \<open>outputData[k] += v\<close> on a \<open>Float32Array\<close>: a typed array ignores a write at an
  index outside \<open>0 .. length - 1\<close> (the read there is \<open>undefined\<close>, the sum \<open>NaN\<close>,
  and the store is dropped); no exception is raised.
\<close>

definition ta_add :: "real list \<Rightarrow> int \<Rightarrow> real \<Rightarrow> real list" where
  "ta_add out k v =
     (if 0 \<le> k \<and> k < int (length out) then out[nat k := out ! nat k + v] else out)"

text \<open>
  The inner loop \<open>for (i = 0; i < sourceData.length; i++)\<close>. The only guard of the
  source is \<open>outputIndex < outputData.length\<close>; there is no lower bound.
\<close>

fun place_samples :: "real list \<Rightarrow> int \<Rightarrow> real \<Rightarrow> nat \<Rightarrow> real list \<Rightarrow> real list" where
  "place_samples outputData startSample gain i [] = outputData"
| "place_samples outputData startSample gain i (x # xs) =
     place_samples
       (let outputIndex = startSample + int i
        in if outputIndex < int (length outputData)
           then ta_add outputData outputIndex (x * gain) else outputData)
       startSample gain (Suc i) xs"

definition startSampleOf :: "AudioClip \<Rightarrow> int" where
  "startSampleOf c = \<lfloor>AudioClip.startTime c * targetSampleRate\<rfloor>"

definition mix_clip :: "nat \<Rightarrow> AudioClip \<Rightarrow> real list \<Rightarrow> real list" where
  "mix_clip n c outputData =
     (let startSample = startSampleOf c;
          normalizedGain = calculateNormalizedGain n (case volume c of None \<Rightarrow> 1 | Some v \<Rightarrow> v)
      in place_samples outputData startSample normalizedGain 0 (buffer c))"

definition channel_of :: "AudioClip \<Rightarrow> TimelineChannel" where
  "channel_of c = \<lparr> ch_start = startSampleOf c,
                    ch_end = startSampleOf c + int (length (buffer c)),
                    TimelineChannel.speakerId = AudioClip.speakerId c \<rparr>"

fun mix_loop :: "nat \<Rightarrow> AudioClip list \<Rightarrow> real list \<times> TimelineChannel list \<Rightarrow> real list \<times> TimelineChannel list" where
  "mix_loop n [] st = st"
| "mix_loop n (c # cs) (outputData, timelineChannels) =
     mix_loop n cs (mix_clip n c outputData, timelineChannels @ [channel_of c])"

text \<open>The body of the loop of \<open>applySoftLimiter\<close>, for one sample.\<close>

definition softLimit :: "real \<Rightarrow> real" where
  "softLimit sample =
     (let threshold = 0.8; knee = 0.1; ratio = 12;
          absSample = \<bar>sample\<bar>
      in if absSample > threshold - knee / 2 then
           (let gain =
                  (if absSample < threshold then
                     (let kneeAmount = (absSample - (threshold - knee / 2)) / knee;
                          hardKneeGain = 1 + (ratio - 1) * kneeAmount
                      in 1 + (hardKneeGain - 1) * kneeAmount)
                   else (threshold + (absSample - threshold) / ratio) / absSample)
            in sample * gain)
         else sample)"

definition applySoftLimiter :: "real list \<Rightarrow> real list" where
  "applySoftLimiter audioData = map softLimit audioData"

text \<open>
  The body of the loop of \<open>compressOverlapRegions\<close> at index \<open>i\<close>. The constants
  \<open>attackSamples\<close> and \<open>releaseSamples\<close> of the source are computed and never used.
\<close>

definition compressSample :: "TimelineChannel list \<Rightarrow> nat \<Rightarrow> real \<Rightarrow> real" where
  "compressSample timelineChannels i sample =
     (let threshold = 0.5; ratio = 4;
          overlappingChannels = length (filter (\<lambda>ch. int i \<ge> ch_start ch \<and> int i < ch_end ch) timelineChannels)
      in if overlappingChannels > 1 then
           (let absSample = \<bar>sample\<bar>
            in if absSample > threshold
               then (sample / absSample) * (threshold + (absSample - threshold) / ratio)
               else sample)
         else sample)"

definition compressOverlapRegions :: "real list \<Rightarrow> TimelineChannel list \<Rightarrow> real list" where
  "compressOverlapRegions audioData timelineChannels =
     map (\<lambda>i. compressSample timelineChannels i (audioData ! i)) [0..<length audioData]"

text \<open>
  \<open>mixAudioBuffers\<close> up to the end of the loop over \<open>buffers\<close>: the accumulated
  buffer and the channels, before the limiter. The \<open>AudioContext\<close> is the caller's;
  \<open>createBuffer\<close> is taken to return a silent buffer of the requested number of frames
  (an empty one when the request is not positive).
\<close>

definition accumulate :: "AudioClip list \<Rightarrow> real \<Rightarrow> real list \<times> TimelineChannel list" where
  "accumulate buffers totalDuration =
     mix_loop (length buffers) buffers
       (replicate (nat \<lceil>totalDuration * targetSampleRate\<rceil>) 0, [])"

definition mixAudioBuffers :: "AudioClip list \<Rightarrow> real \<Rightarrow> real list" where
  "mixAudioBuffers buffers totalDuration =
     (let (outputData, timelineChannels) = accumulate buffers totalDuration
      in compressOverlapRegions (applySoftLimiter outputData) timelineChannels)"

text \<open>The clips of the examples: samples, start time, volume.\<close>

definition clip :: "real list \<Rightarrow> real \<Rightarrow> real option \<Rightarrow> AudioClip" where
  "clip xs t v = \<lparr> buffer = xs, AudioClip.startTime = t, AudioClip.speakerId = ''S'', volume = v \<rparr>"

section \<open>AudioMixer.analyzeAudioPeaks\<close>

text \<open>
  \<open>analyzeAudioPeaks\<close> divides by a value that can be zero, where JavaScript yields an
  infinity or \<open>NaN\<close> and HOL's \<open>x / 0 = 0\<close> would be wrong. Its numbers are
  therefore finite reals, the two infinities or \<open>NaN\<close>. Zero is \<open>+0\<close>: every divisor
  here is a length, an absolute value or a square root.
\<close>

datatype jsnum = Fin real | Infinity | NegInfinity | NaN

fun js_divide :: "jsnum \<Rightarrow> jsnum \<Rightarrow> jsnum" where
  "js_divide NaN _ = NaN"
| "js_divide _ NaN = NaN"
| "js_divide (Fin a) (Fin b) =
     (if b = 0 then (if a = 0 then NaN else if a > 0 then Infinity else NegInfinity)
      else Fin (a / b))"
| "js_divide (Fin a) _ = Fin 0"
| "js_divide Infinity (Fin b) = (if b \<ge> 0 then Infinity else NegInfinity)"
| "js_divide NegInfinity (Fin b) = (if b \<ge> 0 then NegInfinity else Infinity)"
| "js_divide _ _ = NaN"

fun js_sqrt :: "jsnum \<Rightarrow> jsnum" where
  "js_sqrt (Fin x) = (if x < 0 then NaN else Fin (sqrt x))"
| "js_sqrt Infinity = Infinity"
| "js_sqrt _ = NaN"

fun js_max :: "jsnum \<Rightarrow> jsnum \<Rightarrow> jsnum" where
  "js_max NaN _ = NaN"
| "js_max _ NaN = NaN"
| "js_max Infinity _ = Infinity"
| "js_max _ Infinity = Infinity"
| "js_max NegInfinity y = y"
| "js_max x NegInfinity = x"
| "js_max (Fin a) (Fin b) = Fin (max a b)"

fun js_min :: "jsnum \<Rightarrow> jsnum \<Rightarrow> jsnum" where
  "js_min NaN _ = NaN"
| "js_min _ NaN = NaN"
| "js_min NegInfinity _ = NegInfinity"
| "js_min _ NegInfinity = NegInfinity"
| "js_min Infinity y = y"
| "js_min x Infinity = x"
| "js_min (Fin a) (Fin b) = Fin (min a b)"

record PeakAnalysis =
  peak :: jsnum
  rms :: jsnum
  recommendedGain :: jsnum

text \<open>The loop \<open>for (const sample of data)\<close>, on the pair \<open>(peak, sum)\<close>.\<close>

fun peak_sum :: "real list \<Rightarrow> real \<times> real \<Rightarrow> real \<times> real" where
  "peak_sum [] (pk, sm) = (pk, sm)"
| "peak_sum (sample # rest) (pk, sm) =
     (let absSample = \<bar>sample\<bar>
      in peak_sum rest (max pk absSample, sm + absSample * absSample))"

text \<open>The body of the loop over \<open>buffers\<close>: the entry stored for one clip.\<close>

definition analyzeClip :: "real list \<Rightarrow> PeakAnalysis" where
  "analyzeClip data =
     (let (pk, sm) = peak_sum data (0, 0);
          r = js_sqrt (js_divide (Fin sm) (Fin (real (length data))));
          g = js_divide (Fin 0.95) (js_max (Fin pk) r)
      in \<lparr> peak = Fin pk, rms = r, recommendedGain = js_min g (Fin 1.5) \<rparr>)"

text \<open>
  \<open>buffers\<close> is a list of pairs (channel data, speakerId); a later clip of the same
  speaker overwrites the entry of an earlier one, as \<open>Map.set\<close> does.
\<close>

fun analyzeAudioPeaks_loop :: "(real list \<times> string) list \<Rightarrow> (string \<rightharpoonup> PeakAnalysis) \<Rightarrow> (string \<rightharpoonup> PeakAnalysis)" where
  "analyzeAudioPeaks_loop [] analysis = analysis"
| "analyzeAudioPeaks_loop ((data, spk) # rest) analysis =
     analyzeAudioPeaks_loop rest (analysis(spk \<mapsto> analyzeClip data))"

definition analyzeAudioPeaks :: "(real list \<times> string) list \<Rightarrow> (string \<rightharpoonup> PeakAnalysis)" where
  "analyzeAudioPeaks buffers = analyzeAudioPeaks_loop buffers Map.empty"

section \<open>TranslationOptimizer (AudioMixer.ts, second part)\<close>

text \<open>The field \<open>text\<close> of the source is \<open>translatedText\<close> here.\<close>

record TranslatedSegment =
  speakerId :: string
  translatedText :: string
  startTime :: real
  endTime :: real

record SpeakerDescription =
  gender :: string
  age :: string
  emotion :: string

record SegmentGroup =
  speakerId :: string
  startTime :: real
  segments :: "DialogueSegment list"

text \<open>
  \<open>groups.push({speakerId, startTime: currentGroup[0].startTime, segments})\<close>, guarded
  by \<open>if (currentGroup)\<close>. \<open>currentGroup\<close> is only ever assigned \<open>[segment]\<close> and
  extended, so it is never empty where its first element is read.
\<close>

definition push_group :: "SegmentGroup list \<Rightarrow> DialogueSegment list option \<Rightarrow> string \<Rightarrow> SegmentGroup list" where
  "push_group groups currentGroup currentSpeakerId =
     (case currentGroup of
        None \<Rightarrow> groups
      | Some g \<Rightarrow> groups @ [\<lparr> SegmentGroup.speakerId = currentSpeakerId,
                               SegmentGroup.startTime = DialogueSegment.startTime (hd g),
                               SegmentGroup.segments = g \<rparr>])"

text \<open>
  The loop of \<open>groupSegmentsBySpeaker\<close> on \<open>(groups, currentGroup, currentSpeakerId)\<close>;
  \<open>currentGroup\<close> starts as \<open>null\<close> and \<open>currentSpeakerId\<close> as the empty string, and
  \<open>currentGroup?.push(segment)\<close> does nothing while \<open>currentGroup\<close> is \<open>null\<close>.
\<close>

fun group_loop :: "DialogueSegment list \<Rightarrow> SegmentGroup list \<times> DialogueSegment list option \<times> string
    \<Rightarrow> SegmentGroup list \<times> DialogueSegment list option \<times> string" where
  "group_loop [] st = st"
| "group_loop (segment # rest) (groups, currentGroup, currentSpeakerId) =
     (if DialogueSegment.speakerId segment \<noteq> currentSpeakerId
      then group_loop rest (push_group groups currentGroup currentSpeakerId,
                            Some [segment], DialogueSegment.speakerId segment)
      else group_loop rest (groups, map_option (\<lambda>g. g @ [segment]) currentGroup, currentSpeakerId))"

fun finish_groups :: "SegmentGroup list \<times> DialogueSegment list option \<times> string \<Rightarrow> SegmentGroup list" where
  "finish_groups (groups, currentGroup, currentSpeakerId) =
     push_group groups currentGroup currentSpeakerId"

definition groupSegmentsBySpeaker :: "DialogueSegment list \<Rightarrow> SegmentGroup list" where
  "groupSegmentsBySpeaker segs = finish_groups (group_loop segs ([], None, []))"

fun join :: "string \<Rightarrow> string list \<Rightarrow> string" where
  "join sep [] = []"
| "join sep [x] = x"
| "join sep (x # y # ys) = x @ sep @ join sep (y # ys)"

definition profileDescriptionOf :: "SpeakerDescription option \<Rightarrow> string option" where
  "profileDescriptionOf speakerProfile =
     map_option (\<lambda>p. gender p @ '', '' @ age p @ '', '' @ emotion p @ '' tone'') speakerProfile"

text \<open>
  The context filter compares \<open>segments.indexOf(s)\<close> with
  \<open>segments.indexOf(group) \<plusminus> 1\<close>. \<open>group\<close> is no element of \<open>segments\<close>, so its index is
  \<open>-1\<close>; the elements of \<open>segments\<close> are taken to be distinct objects, so the index of
  an element is its position.
\<close>

definition contextTextOf :: "DialogueSegment list \<Rightarrow> SegmentGroup \<Rightarrow> string" where
  "contextTextOf segs grp =
     (let indexOfGroup = (- 1 :: int);
          contextSegments =
            map snd (filter (\<lambda>(i, s).
                \<bar>DialogueSegment.startTime s - SegmentGroup.startTime grp\<bar> < 30
                \<and> (DialogueSegment.speakerId s = SegmentGroup.speakerId grp
                   \<or> int i = indexOfGroup - 1 \<or> int i = indexOfGroup + 1))
              (zip [0..<length segs] segs))
      in join '' '' (map transcription contextSegments))"

text \<open>
  The external translator \<open>optimizeTranslation(text, targetLanguage, context,
  characterDescription)\<close> is a parameter: an arbitrary function of its four arguments.
\<close>

definition translate_group ::
  "(string \<Rightarrow> string \<Rightarrow> string \<Rightarrow> string option \<Rightarrow> string) \<Rightarrow> DialogueSegment list \<Rightarrow> string
    \<Rightarrow> (string \<rightharpoonup> SpeakerDescription) \<Rightarrow> SegmentGroup \<Rightarrow> TranslatedSegment list" where
  "translate_group optimizeTranslation segs targetLanguage speakerProfiles grp =
     (let profileDescription = profileDescriptionOf (speakerProfiles (SegmentGroup.speakerId grp));
          contextText = contextTextOf segs grp
      in map (\<lambda>segment.
             \<lparr> TranslatedSegment.speakerId = DialogueSegment.speakerId segment,
               translatedText = optimizeTranslation (transcription segment) targetLanguage contextText profileDescription,
               TranslatedSegment.startTime = DialogueSegment.startTime segment,
               TranslatedSegment.endTime = DialogueSegment.endTime segment \<rparr>)
           (SegmentGroup.segments grp))"

definition batchOptimizeTranslations ::
  "(string \<Rightarrow> string \<Rightarrow> string \<Rightarrow> string option \<Rightarrow> string) \<Rightarrow> DialogueSegment list \<Rightarrow> string
    \<Rightarrow> (string \<rightharpoonup> SpeakerDescription) \<Rightarrow> TranslatedSegment list" where
  "batchOptimizeTranslations optimizeTranslation segs targetLanguage speakerProfiles =
     concat (map (translate_group optimizeTranslation segs targetLanguage speakerProfiles)
                 (groupSegmentsBySpeaker segs))"

text \<open>The speaker and timing of a segment, before and after translation.\<close>

definition timing_of_segment :: "DialogueSegment \<Rightarrow> string \<times> real \<times> real" where
  "timing_of_segment s = (DialogueSegment.speakerId s, DialogueSegment.startTime s, DialogueSegment.endTime s)"

definition timing_of_translated :: "TranslatedSegment \<Rightarrow> string \<times> real \<times> real" where
  "timing_of_translated t = (TranslatedSegment.speakerId t, TranslatedSegment.startTime t, TranslatedSegment.endTime t)"

section \<open>PCM codec (useVideoProcessor.ts)\<close>

type_synonym byte = "8 word"

text \<open>
  Storing a number into an \<open>Int16Array\<close> truncates it toward zero and wraps it modulo
  \<open>2\<^sup>1\<^sup>6\<close>. The samples come from a \<open>Float32Array\<close>, so the product with
  \<open>0x7FFF\<close> is exact in double precision, as is the quotient by 32768 when decoding.
\<close>

definition js_trunc :: "real \<Rightarrow> int" where
  "js_trunc x = (if x \<ge> 0 then \<lfloor>x\<rfloor> else \<lceil>x\<rceil>)"

definition toInt16 :: "real \<Rightarrow> 16 word" where
  "toInt16 x = word_of_int (js_trunc x)"

definition sampleToInt16 :: "real \<Rightarrow> 16 word" where
  "sampleToInt16 x = toInt16 (max (- 1) (min 1 x) * 32767)"

definition setInt16_le :: "16 word \<Rightarrow> byte list" where
  "setInt16_le w = [ucast w, ucast (drop_bit 8 w)]"

definition wavSampleBytes :: "real list \<Rightarrow> byte list" where
  "wavSampleBytes data = concat (map (\<lambda>x. setInt16_le (sampleToInt16 x)) data)"

text \<open>
  \<open>audioBufferToWavBlob\<close>: the 44-byte header followed by the samples of channel 0.
\<close>

definition writeString :: "string \<Rightarrow> byte list" where
  "writeString s = map (\<lambda>c. of_nat (of_char c)) s"

definition setUint16_le :: "nat \<Rightarrow> byte list" where
  "setUint16_le v = (let w = (of_nat v :: 16 word) in [ucast w, ucast (drop_bit 8 w)])"

definition setUint32_le :: "nat \<Rightarrow> byte list" where
  "setUint32_le v =
     (let w = (of_nat v :: 32 word)
      in [ucast w, ucast (drop_bit 8 w), ucast (drop_bit 16 w), ucast (drop_bit 24 w)])"

definition audioBufferToWavBlob :: "nat \<Rightarrow> nat \<Rightarrow> real list \<Rightarrow> byte list" where
  "audioBufferToWavBlob numChannels sampleRate data =
     (let format = 1; bitDepth = 16;
          dataLength = length data * (bitDepth div 8)
      in writeString ''RIFF'' @ setUint32_le (36 + dataLength)
         @ writeString ''WAVE'' @ writeString ''fmt '' @ setUint32_le 16
         @ setUint16_le format @ setUint16_le numChannels @ setUint32_le sampleRate
         @ setUint32_le (sampleRate * numChannels * (bitDepth div 8))
         @ setUint16_le (numChannels * (bitDepth div 8)) @ setUint16_le bitDepth
         @ writeString ''data'' @ setUint32_le dataLength
         @ wavSampleBytes data)"

text \<open>
  \<open>DataView.getInt16(byteOffset, true)\<close> raises a \<open>RangeError\<close> (here \<open>None\<close>) when
  the two bytes are not inside the view.
\<close>

definition getInt16_le :: "byte list \<Rightarrow> nat \<Rightarrow> 16 word option" where
  "getInt16_le data byteOffset =
     (if byteOffset + 2 \<le> length data
      then Some (word_cat (data ! (byteOffset + 1)) (data ! byteOffset))
      else None)"

text \<open>
  \<open>manualDecodeAudioData\<close> for raw PCM without a header; \<open>sampleRate\<close> is only
  handed on to the buffer and is left out. \<open>frameCount\<close> is a quotient of
  numbers and need not be whole: the buffer gets \<open>\<lfloor>frameCount\<rfloor>\<close> frames, the loop runs
  while \<open>i < frameCount\<close>, and a store past the end of a channel is ignored. The buffer
  factory of the caller's \<open>AudioContext\<close> is taken to accept any channel count above 0.
\<close>

definition decode_channel :: "byte list \<Rightarrow> nat \<Rightarrow> real \<Rightarrow> nat \<Rightarrow> real list option" where
  "decode_channel data numChannels frameCount channel =
     map_option (take (nat \<lfloor>frameCount\<rfloor>))
       (those (map (\<lambda>i. map_option (\<lambda>sample. real_of_int (sint sample) / 32768)
                             (getInt16_le data ((i * numChannels + channel) * 2)))
                   [0..<nat \<lceil>frameCount\<rceil>]))"

definition manualDecodeAudioData :: "byte list \<Rightarrow> nat \<Rightarrow> real list list option" where
  "manualDecodeAudioData data numChannels =
     (if numChannels = 0 then None
      else let frameCount = real (length data) / 2 / real numChannels
           in if frameCount \<le> 0 then Some (replicate numChannels [])
              else those (map (decode_channel data numChannels frameCount) [0..<numChannels]))"

section \<open>Properties of chunkVideo\<close>

lemma segments_createChunk: "VideoChunk.segments (createChunk segs start hasOv) = segs"
  by (simp add: createChunk_def Let_def)

lemma chunk_step_concat:
  "concat (map VideoChunk.segments (chunks (chunk_step g prev seg st))) @ currentChunk (chunk_step g prev seg st)
   = concat (map VideoChunk.segments (chunks st)) @ currentChunk st @ [seg]"
  by (simp add: chunk_step_def Let_def segments_createChunk)

lemma chunk_loop_concat:
  "concat (map VideoChunk.segments (chunks (chunk_loop g prev xs st))) @ currentChunk (chunk_loop g prev xs st)
   = concat (map VideoChunk.segments (chunks st)) @ currentChunk st @ xs"
proof (induction xs arbitrary: prev st)
  case Nil
  show ?case by simp
next
  case (Cons x xs)
  show ?case
    by (simp add: Cons.IH chunk_step_concat del: append_assoc)
qed

lemma chunk_finish_concat:
  "concat (map VideoChunk.segments (chunk_finish st)) = concat (map VideoChunk.segments (chunks st)) @ currentChunk st"
  by (simp add: chunk_finish_def segments_createChunk)

text \<open>
  C9. Concatenating the \<open>segments\<close> fields of the chunks returned by \<open>chunkVideo\<close>, in
  chunk order, gives exactly the input segments sorted by \<open>startTime\<close> with ties in
  input order (\<open>sort_key\<close> is sorted and stable: \<open>sorted_sort_key\<close>,
  \<open>sort_key_stable\<close>): no segment is lost, duplicated or reordered.
\<close>

theorem chunkVideo_concat_segments:
  "concat (map VideoChunk.segments (chunkVideo segs g)) = sort_key DialogueSegment.startTime segs"
proof (cases "sort_key DialogueSegment.startTime segs")
  case Nil
  then show ?thesis by (simp add: chunkVideo_def)
next
  case (Cons s0 rest)
  then show ?thesis
    by (simp add: chunkVideo_def chunk_finish_concat chunk_loop_concat del: chunk_loop.simps)
qed

lemma chunk_step_no_overlap:
  assumes "\<not> hasOverlap st" and "prev \<noteq> None \<longrightarrow> currentChunk st \<noteq> []"
  shows "\<not> hasOverlap (chunk_step g prev x st) \<and> currentChunk (chunk_step g prev x st) \<noteq> []
         \<and> (\<forall>c\<in>set (chunks (chunk_step g prev x st)). chunkType c \<noteq> Overlap \<or> c \<in> set (chunks st))"
  using assms by (auto simp: chunk_step_def Let_def createChunk_def split: option.splits)

lemma chunk_loop_no_overlap:
  assumes "\<not> hasOverlap st" and "prev \<noteq> None \<longrightarrow> currentChunk st \<noteq> []"
    and "\<forall>c\<in>set (chunks st). chunkType c \<noteq> Overlap"
  shows "\<not> hasOverlap (chunk_loop g prev xs st)
         \<and> (\<forall>c\<in>set (chunks (chunk_loop g prev xs st)). chunkType c \<noteq> Overlap)"
  using assms
proof (induction xs arbitrary: prev st)
  case Nil
  then show ?case by simp
next
  case (Cons x xs)
  have s: "\<not> hasOverlap (chunk_step g prev x st)" "currentChunk (chunk_step g prev x st) \<noteq> []"
    "\<forall>c\<in>set (chunks (chunk_step g prev x st)). chunkType c \<noteq> Overlap"
    using chunk_step_no_overlap[OF Cons.prems(1,2), of g x] Cons.prems(3) by auto
  show ?case
    using Cons.IH[of "chunk_step g prev x st" "Some x"] s by simp
qed

text \<open>
  The flag \<open>hasOverlap\<close> is only set in the branch that is taken when the flag is
  already set, so it stays false and no chunk is ever classified as \<open>overlap\<close>.
\<close>

lemma chunkVideo_never_Overlap: "c \<in> set (chunkVideo segs g) \<Longrightarrow> chunkType c \<noteq> Overlap"
proof (cases "sort_key DialogueSegment.startTime segs")
  case Nil
  assume "c \<in> set (chunkVideo segs g)"
  with Nil show ?thesis by (simp add: chunkVideo_def)
next
  case (Cons s0 rest)
  let ?st0 = "\<lparr> chunks = [], currentChunk = [], currentStartTime = DialogueSegment.startTime s0,
                 currentSpeakers = {}, hasOverlap = False \<rparr>"
  assume c: "c \<in> set (chunkVideo segs g)"
  have l: "\<not> hasOverlap (chunk_loop g None (s0 # rest) ?st0)
         \<and> (\<forall>c\<in>set (chunks (chunk_loop g None (s0 # rest) ?st0)). chunkType c \<noteq> Overlap)"
    by (rule chunk_loop_no_overlap) simp_all
  from c Cons have "c \<in> set (chunk_finish (chunk_loop g None (s0 # rest) ?st0))"
    by (simp add: chunkVideo_def)
  with l show ?thesis
    by (auto simp: chunk_finish_def createChunk_def Let_def split: if_splits)
qed

text \<open>
  C3. On the segments \<open>[{A, 0, 3}, {B, 2, 4}]\<close> the claim expects one chunk of type
  \<open>overlap\<close> with speakers \<open>{A, B}\<close> from 0 to 4. The code returns, for every gap
  threshold, two \<open>single-speaker\<close> chunks, 0 to 3 and 2 to 4: the overlapping segment
  closes the prior chunk, and the chunk it opens starts with \<open>hasOverlap = false\<close>.
\<close>

theorem chunkVideo_overlap_example:
  "chunkVideo [mkSeg ''A'' 0 3, mkSeg ''B'' 2 4] g =
     [ \<lparr> VideoChunk.startTime = 0, VideoChunk.endTime = 3, VideoChunk.segments = [mkSeg ''A'' 0 3],
         chunkType = SingleSpeaker, speakers = [''A''] \<rparr>,
       \<lparr> VideoChunk.startTime = 2, VideoChunk.endTime = 4, VideoChunk.segments = [mkSeg ''B'' 2 4],
         chunkType = SingleSpeaker, speakers = [''B''] \<rparr> ]"
  by (simp add: chunkVideo_def chunk_finish_def chunk_step_def createChunk_def mkSeg_def Let_def)

lemma fold_max_le: "fold max xs a \<le> (b::real) \<longleftrightarrow> a \<le> b \<and> (\<forall>x\<in>set xs. x \<le> b)"
  by (induction xs arbitrary: a) auto

lemma maxEndTime_le:
  "ss \<noteq> [] \<Longrightarrow> \<forall>s\<in>set ss. DialogueSegment.endTime s \<le> b \<Longrightarrow> maxEndTime ss \<le> b"
  by (cases ss) (simp_all add: fold_max_le)

lemma createChunk_sel:
  "VideoChunk.startTime (createChunk ss t h) = t"
  "VideoChunk.endTime (createChunk ss t h) = maxEndTime ss"
  by (simp_all add: createChunk_def Let_def)

lemma chunk_before_createChunk:
  "chunk_before c (createChunk ss t h) \<longleftrightarrow> VideoChunk.endTime c \<le> t"
  by (simp add: chunk_before_def createChunk_sel)

lemma successively_sorted_wrt:
  "sorted (map DialogueSegment.startTime xs) \<Longrightarrow> successively seg_before xs \<Longrightarrow> sorted_wrt seg_before xs"
proof (induction xs)
  case Nil
  show ?case by simp
next
  case (Cons x xs)
  show ?case
  proof (cases xs)
    case Nil
    then show ?thesis by simp
  next
    case (Cons y ys)
    have a: "seg_before x y" using Cons.prems(2) Cons by simp
    have b: "\<forall>z\<in>set xs. DialogueSegment.startTime y \<le> DialogueSegment.startTime z"
      using Cons.prems(1) Cons by auto
    have c: "sorted_wrt seg_before xs"
      using Cons.IH Cons.prems Cons by simp
    from a b have "\<forall>z\<in>set xs. seg_before x z"
      by (auto simp: seg_before_def intro: order_trans)
    with c show ?thesis by simp
  qed
qed

text \<open>
  The invariant of the scan when no segment starts before an earlier one ends: closed
  chunks end before the open chunk starts and before every segment still to come.
\<close>

lemma chunk_loop_ordered:
  assumes "sorted_wrt seg_before xs"
    and "sorted_wrt chunk_before (chunks st)"
    and "\<forall>c\<in>set (chunks st). \<forall>r\<in>set xs. VideoChunk.endTime c \<le> DialogueSegment.startTime r"
    and "\<forall>s\<in>set (currentChunk st). \<forall>r\<in>set xs. DialogueSegment.endTime s \<le> DialogueSegment.startTime r"
    and "\<forall>c\<in>set (chunks st). VideoChunk.endTime c \<le> currentStartTime st"
  shows "sorted_wrt chunk_before (chunk_finish (chunk_loop g prev xs st))"
  using assms
proof (induction xs arbitrary: prev st)
  case Nil
  then show ?case
    by (simp add: chunk_finish_def sorted_wrt_append chunk_before_createChunk)
next
  case (Cons x xs)
  let ?st = "chunk_step g prev x st"
  have 1: "sorted_wrt seg_before xs" using Cons.prems(1) by simp
  have 2: "sorted_wrt chunk_before (chunks ?st)"
    using Cons.prems(2,5)
    by (simp add: chunk_step_def Let_def sorted_wrt_append chunk_before_createChunk)
  have m: "currentChunk st \<noteq> [] \<Longrightarrow> \<forall>r\<in>set (x # xs). maxEndTime (currentChunk st) \<le> DialogueSegment.startTime r"
    using Cons.prems(4) by (auto intro!: maxEndTime_le)
  have 3: "\<forall>c\<in>set (chunks ?st). \<forall>r\<in>set xs. VideoChunk.endTime c \<le> DialogueSegment.startTime r"
    using Cons.prems(3) m
    by (auto simp: chunk_step_def Let_def createChunk_sel)
  have 4: "\<forall>s\<in>set (currentChunk ?st). \<forall>r\<in>set xs. DialogueSegment.endTime s \<le> DialogueSegment.startTime r"
    using Cons.prems(1,4)
    by (auto simp: chunk_step_def Let_def seg_before_def)
  have 5: "\<forall>c\<in>set (chunks ?st). VideoChunk.endTime c \<le> currentStartTime ?st"
    using Cons.prems(3,5) m
    by (auto simp: chunk_step_def Let_def createChunk_sel)
  show ?case
    using Cons.IH[OF 1 2 3 4 5] by simp
qed

lemma chunkVideo_ordered:
  assumes "successively seg_before (sort_key DialogueSegment.startTime segs)"
  shows "sorted_wrt chunk_before (chunkVideo segs g)"
proof (cases "sort_key DialogueSegment.startTime segs")
  case Nil
  then show ?thesis by (simp add: chunkVideo_def)
next
  case (Cons s0 rest)
  have "sorted (map DialogueSegment.startTime (sort_key DialogueSegment.startTime segs))"
    by simp
  then have "sorted_wrt seg_before (s0 # rest)"
    using assms Cons successively_sorted_wrt by metis
  then show ?thesis
    using Cons by (simp add: chunkVideo_def chunk_loop_ordered del: chunk_loop.simps)
qed

text \<open>
  C5, as stated, fails: on \<open>[{A, 0, 3}, {B, 2, 4}]\<close> the two chunks returned cover
  0 to 3 and 2 to 4, which intersect.
\<close>

theorem chunkVideo_overlap_counterexample:
  "intervals_overlap (chunkVideo [mkSeg ''A'' 0 3, mkSeg ''B'' 2 4] (1/2) ! 0)
                     (chunkVideo [mkSeg ''A'' 0 3, mkSeg ''B'' 2 4] (1/2) ! 1)"
  by (simp add: chunkVideo_def chunk_finish_def chunk_step_def createChunk_def mkSeg_def Let_def
      intervals_overlap_def)

text \<open>
  C5, amended. When, in start order, no segment starts before the segment preceding it
  ends, any two distinct chunks returned by one \<open>chunkVideo\<close> call have
  non-intersecting \<open>[startTime, endTime)\<close> ranges (they may abut).
\<close>

theorem chunkVideo_nonoverlapping:
  assumes "successively seg_before (sort_key DialogueSegment.startTime segs)"
    and "i < length (chunkVideo segs g)" and "j < length (chunkVideo segs g)" and "i \<noteq> j"
  shows "\<not> intervals_overlap (chunkVideo segs g ! i) (chunkVideo segs g ! j)"
proof -
  have s: "sorted_wrt chunk_before (chunkVideo segs g)"
    using assms(1) by (rule chunkVideo_ordered)
  show ?thesis
  proof (cases "i < j")
    case True
    then have "chunk_before (chunkVideo segs g ! i) (chunkVideo segs g ! j)"
      using s assms(3) by (simp add: sorted_wrt_iff_nth_less)
    then show ?thesis by (simp add: intervals_overlap_def chunk_before_def)
  next
    case False
    then have "j < i" using assms(4) by simp
    then have "chunk_before (chunkVideo segs g ! j) (chunkVideo segs g ! i)"
      using s assms(2) by (simp add: sorted_wrt_iff_nth_less)
    then show ?thesis by (simp add: intervals_overlap_def chunk_before_def)
  qed
qed

theorem chunkVideo_nonoverlapping_witness:
  "successively seg_before
     (sort_key DialogueSegment.startTime [mkSeg ''A'' 0 2, mkSeg ''A'' 2 4, mkSeg ''B'' 5 7])
   \<and> 0 < length (chunkVideo [mkSeg ''A'' 0 2, mkSeg ''A'' 2 4, mkSeg ''B'' 5 7] (1/2))
   \<and> 1 < length (chunkVideo [mkSeg ''A'' 0 2, mkSeg ''A'' 2 4, mkSeg ''B'' 5 7] (1/2))
   \<and> (0::nat) \<noteq> 1
   \<and> \<not> intervals_overlap (chunkVideo [mkSeg ''A'' 0 2, mkSeg ''A'' 2 4, mkSeg ''B'' 5 7] (1/2) ! 0)
                          (chunkVideo [mkSeg ''A'' 0 2, mkSeg ''A'' 2 4, mkSeg ''B'' 5 7] (1/2) ! 1)"
proof -
  let ?ex = "[mkSeg ''A'' 0 2, mkSeg ''A'' 2 4, mkSeg ''B'' 5 7]"
  have h1: "successively seg_before (sort_key DialogueSegment.startTime ?ex)"
    by (simp add: mkSeg_def seg_before_def)
  have l: "length (chunkVideo ?ex (1/2)) = 2"
    by (simp add: chunkVideo_def chunk_finish_def chunk_step_def createChunk_def mkSeg_def Let_def)
  have h2: "0 < length (chunkVideo ?ex (1/2))" and h3: "1 < length (chunkVideo ?ex (1/2))"
    using l by simp_all
  have h4: "(0::nat) \<noteq> 1" by simp
  show ?thesis
    using chunkVideo_nonoverlapping [OF h1 h2 h3 h4] h1 h2 h3 by simp
qed

section \<open>Properties of the mixer\<close>

lemma length_ta_add [simp]: "length (ta_add out k v) = length out"
  by (simp add: ta_add_def)

lemma nth_ta_add:
  "j < length out \<Longrightarrow> ta_add out k v ! j = out ! j + (if int j = k then v else 0)"
  by (auto simp: ta_add_def nth_list_update)

lemma length_place_samples [simp]: "length (place_samples out ss g i xs) = length out"
  by (induction xs arbitrary: out i) (simp_all add: Let_def)

lemma nth_place_samples:
  "j < length out \<Longrightarrow>
   place_samples out ss g i xs ! j =
     out ! j + (if ss + int i \<le> int j \<and> int j < ss + int i + int (length xs)
                then xs ! nat (int j - ss - int i) * g else 0)"
proof (induction xs arbitrary: out i)
  case Nil
  then show ?case by simp
next
  case (Cons x xs)
  let ?out = "(let outputIndex = ss + int i
        in if outputIndex < int (length out)
           then ta_add out outputIndex (x * g) else out)"
  have l: "j < length ?out" using Cons.prems by (simp add: Let_def)
  have o: "?out ! j = out ! j + (if int j = ss + int i then x * g else 0)"
    using Cons.prems by (auto simp: Let_def nth_ta_add)
  have "place_samples out ss g i (x # xs) ! j = place_samples ?out ss g (Suc i) xs ! j"
    by simp
  also have "\<dots> = ?out ! j + (if ss + int (Suc i) \<le> int j \<and> int j < ss + int (Suc i) + int (length xs)
                then xs ! nat (int j - ss - int (Suc i)) * g else 0)"
    using Cons.IH[OF l] .
  also have "\<dots> = out ! j + (if ss + int i \<le> int j \<and> int j < ss + int i + int (length (x # xs))
                then (x # xs) ! nat (int j - ss - int i) * g else 0)"
  proof (cases "int j = ss + int i")
    case True
    then show ?thesis using o by simp
  next
    case False
    have "(x # xs) ! nat (int j - ss - int i) = xs ! nat (int j - ss - int (Suc i))"
      if "ss + int (Suc i) \<le> int j"
    proof -
      have "nat (int j - ss - int i) = Suc (nat (int j - ss - int (Suc i)))"
        using that by linarith
      then show ?thesis by simp
    qed
    then show ?thesis using o False by auto
  qed
  finally show ?case .
qed

lemma softLimit_below: "\<bar>s\<bar> \<le> 3/4 \<Longrightarrow> softLimit s = s"
  by (simp add: softLimit_def Let_def)

lemma softLimit_above:
  assumes "4/5 \<le> \<bar>s\<bar>"
  shows "\<bar>softLimit s\<bar> = 4/5 + (\<bar>s\<bar> - 4/5) / 12"
proof -
  have p: "\<bar>s\<bar> > 0" using assms by linarith
  have "softLimit s = s * ((4/5 + (\<bar>s\<bar> - 4/5) / 12) / \<bar>s\<bar>)"
    using assms by (simp add: softLimit_def Let_def)
  then have "\<bar>softLimit s\<bar> = \<bar>s\<bar> * (\<bar>4/5 + (\<bar>s\<bar> - 4/5) / 12\<bar> / \<bar>s\<bar>)"
    by (simp add: abs_mult)
  also have "\<dots> = \<bar>4/5 + (\<bar>s\<bar> - 4/5) / 12\<bar>"
    using p by simp
  also have "\<dots> = 4/5 + (\<bar>s\<bar> - 4/5) / 12"
    using assms by simp
  finally show ?thesis .
qed

lemma softLimit_knee:
  assumes "3/4 < \<bar>s\<bar>" and "\<bar>s\<bar> < 4/5"
  shows "softLimit s = s * (1 + 11 * ((\<bar>s\<bar> - 3/4) / (1/10))\<^sup>2)"
  using assms by (simp add: softLimit_def Let_def power2_eq_square)

lemma softLimit_knee_amplifies:
  assumes "3/4 < \<bar>s\<bar>" and "\<bar>s\<bar> < 4/5"
  shows "\<bar>s\<bar> < \<bar>softLimit s\<bar>"
proof -
  let ?k = "(\<bar>s\<bar> - 3/4) / (1/10)"
  have k: "0 < ?k" using assms by simp
  then have "0 < ?k\<^sup>2" by simp
  then have g: "1 < 1 + 11 * ?k\<^sup>2" by simp
  have "\<bar>softLimit s\<bar> = \<bar>s\<bar> * (1 + 11 * ?k\<^sup>2)"
    using g by (simp add: softLimit_knee[OF assms] abs_mult)
  moreover have "\<bar>s\<bar> * 1 < \<bar>s\<bar> * (1 + 11 * ?k\<^sup>2)"
    using g assms by (intro mult_strict_left_mono) simp_all
  ultimately show ?thesis by simp
qed

lemma softLimit_sgn: "sgn (softLimit s) = sgn s"
proof -
  consider "\<bar>s\<bar> \<le> 3/4" | "3/4 < \<bar>s\<bar>" "\<bar>s\<bar> < 4/5" | "4/5 \<le> \<bar>s\<bar>" by linarith
  then show ?thesis
  proof cases
    case 1
    then show ?thesis by (simp add: softLimit_below)
  next
    case 2
    define c where "c = 1 + 11 * ((\<bar>s\<bar> - 3/4) / (1/10))\<^sup>2"
    have "0 < c"
      unfolding c_def by (intro add_pos_nonneg) simp_all
    moreover have "softLimit s = s * c"
      unfolding c_def by (rule softLimit_knee[OF 2])
    ultimately show ?thesis
      by (simp add: sgn_mult)
  next
    case 3
    define c where "c = (4/5 + (\<bar>s\<bar> - 4/5) / 12) / \<bar>s\<bar>"
    have "0 < c"
      unfolding c_def using 3 by (intro divide_pos_pos add_pos_nonneg) simp_all
    moreover have "softLimit s = s * c"
      unfolding c_def using 3 by (simp add: softLimit_def Let_def)
    ultimately show ?thesis
      by (simp add: sgn_mult)
  qed
qed

text \<open>
  C2. The claim holds below the knee (\<open>softLimit_below\<close>), above the threshold
  (\<open>softLimit_above\<close>) and for the sign (\<open>softLimit_sgn\<close>). Inside the knee the code
  multiplies the sample by \<open>1 + 11 k\<^sup>2\<close> with \<open>k = (|s| - 0.75) / 0.1\<close>, a gain above 1
  (\<open>softLimit_knee_amplifies\<close>): the sample 0.79 becomes 2.1804 instead of staying at
  most 0.79.
\<close>

theorem softLimit_knee_example:
  "softLimit (79/100) = 5451/2500 \<and> \<bar>79/100 :: real\<bar> < \<bar>softLimit (79/100)\<bar>"
  by (simp add: softLimit_def Let_def)

lemma compressSample_le: "\<bar>compressSample chans i s\<bar> \<le> \<bar>s\<bar>"
proof -
  have "\<bar>(s / \<bar>s\<bar>) * (1/2 + (\<bar>s\<bar> - 1/2) / 4)\<bar> \<le> \<bar>s\<bar>" if "1/2 < \<bar>s\<bar>"
  proof -
    have "\<bar>(s / \<bar>s\<bar>) * (1/2 + (\<bar>s\<bar> - 1/2) / 4)\<bar> = \<bar>1/2 + (\<bar>s\<bar> - 1/2) / 4\<bar>"
      using that by (simp add: abs_mult)
    also have "\<dots> \<le> \<bar>s\<bar>" using that by (simp add: field_simps)
    finally show ?thesis .
  qed
  then show ?thesis
    by (simp add: compressSample_def Let_def)
qed

lemma length_mix_clip [simp]: "length (mix_clip n c out) = length out"
  by (simp add: mix_clip_def Let_def)

lemma length_fst_mix_loop [simp]: "length (fst (mix_loop n cs st)) = length (fst st)"
  by (induction n cs st rule: mix_loop.induct) simp_all

lemma length_accumulate: "length (fst (accumulate bs d)) = nat \<lceil>d * targetSampleRate\<rceil>"
  by (simp add: accumulate_def)

lemma length_mixAudioBuffers: "length (mixAudioBuffers bs d) = nat \<lceil>d * targetSampleRate\<rceil>"
  by (simp add: mixAudioBuffers_def compressOverlapRegions_def applySoftLimiter_def
      length_accumulate split: prod.splits) (metis fst_conv length_accumulate)

lemma nth_mixAudioBuffers:
  assumes "i < length (mixAudioBuffers bs d)"
  shows "mixAudioBuffers bs d ! i =
         compressSample (snd (accumulate bs d)) i (softLimit (fst (accumulate bs d) ! i))"
  using assms
  by (simp add: mixAudioBuffers_def compressOverlapRegions_def applySoftLimiter_def
      split: prod.splits)

lemmas mix_eval = mixAudioBuffers_def accumulate_def mix_clip_def startSampleOf_def
      calculateNormalizedGain_def targetSampleRate_def ta_add_def channel_of_def clip_def
      applySoftLimiter_def softLimit_def compressOverlapRegions_def compressSample_def Let_def

text \<open>
  C1, as stated, fails: the limiter compresses 12:1 above the threshold and does not
  clamp. One clip with the single sample 1.0 and volume 100 accumulates to 100, which
  the limiter maps to \<open>0.8 + 99.2 / 12 = 136 / 15\<close>, about 9.07.
\<close>

theorem mixAudioBuffers_unbounded_counterexample:
  "1 < \<bar>mixAudioBuffers [clip [1] 0 (Some 100)] (1/24000) ! 0\<bar>"
  by (simp add: mix_eval)

text \<open>
  C1, amended. An output sample whose accumulated value (after step 2, before the
  limiter) has magnitude at most 0.75, or between 0.8 and 3.2, has absolute value at
  most 1.0 after the limiter and the overlap compression.
\<close>

theorem mixAudioBuffers_bounded:
  assumes "i < length (mixAudioBuffers bs d)"
    and "\<bar>fst (accumulate bs d) ! i\<bar> \<le> 3/4
         \<or> (4/5 \<le> \<bar>fst (accumulate bs d) ! i\<bar> \<and> \<bar>fst (accumulate bs d) ! i\<bar> \<le> 16/5)"
  shows "\<bar>mixAudioBuffers bs d ! i\<bar> \<le> 1"
proof -
  let ?a = "fst (accumulate bs d) ! i"
  have "\<bar>softLimit ?a\<bar> \<le> 1"
  proof (cases "\<bar>?a\<bar> \<le> 3/4")
    case True
    then show ?thesis by (simp add: softLimit_below)
  next
    case False
    then have h: "4/5 \<le> \<bar>?a\<bar>" "\<bar>?a\<bar> \<le> 16/5" using assms(2) by auto
    have "\<bar>softLimit ?a\<bar> = 4/5 + (\<bar>?a\<bar> - 4/5) / 12"
      using h(1) by (rule softLimit_above)
    also have "\<dots> \<le> 1" using h(2) by (simp add: field_simps)
    finally show ?thesis .
  qed
  moreover have "\<bar>mixAudioBuffers bs d ! i\<bar> \<le> \<bar>softLimit ?a\<bar>"
    by (simp only: nth_mixAudioBuffers[OF assms(1)] compressSample_le)
  ultimately show ?thesis by linarith
qed

lemma nth_mix_clip:
  assumes "j < length out"
  shows "mix_clip n c out ! j =
     out ! j + (if startSampleOf c \<le> int j \<and> int j < startSampleOf c + int (length (buffer c))
                then buffer c ! nat (int j - startSampleOf c)
                     * calculateNormalizedGain n (case volume c of None \<Rightarrow> 1 | Some v \<Rightarrow> v)
                else 0)"
  using nth_place_samples[OF assms, of "startSampleOf c" _ 0 "buffer c"]
  by (simp add: mix_clip_def Let_def)

lemma snd_mix_loop: "snd (mix_loop n cs st) = snd st @ map channel_of cs"
  by (induction n cs st rule: mix_loop.induct) simp_all

lemma fst_mix_loop: "fst (mix_loop n cs st) = foldl (\<lambda>out c. mix_clip n c out) (fst st) cs"
  by (induction n cs st rule: mix_loop.induct) simp_all

lemma length_foldl_mix_clip [simp]:
  "length (foldl (\<lambda>out c. mix_clip n c out) out cs) = length out"
  by (induction cs arbitrary: out) simp_all

lemma mix_clip_empty: "mix_clip n (c\<lparr>buffer := []\<rparr>) out = out"
  by (simp add: mix_clip_def Let_def)

lemma mix_clip_outside:
  assumes "startSampleOf c + int (length (buffer c)) \<le> 0 \<or> int (length out) \<le> startSampleOf c"
  shows "mix_clip n c out = out"
proof (rule nth_equalityI)
  show "length (mix_clip n c out) = length out" by simp
next
  fix j
  assume "j < length (mix_clip n c out)"
  then have j: "j < length out" by simp
  have "\<not> (startSampleOf c \<le> int j \<and> int j < startSampleOf c + int (length (buffer c)))"
    using assms j by linarith
  then show "mix_clip n c out ! j = out ! j"
    by (simp only: nth_mix_clip[OF j] if_False)
qed

lemma compressSample_outside:
  assumes "startSampleOf c + int (length (buffer c)) \<le> 0 \<or> int N \<le> startSampleOf c"
    and "i < N"
  shows "compressSample (chs1 @ channel_of c # chs2) i s
       = compressSample (chs1 @ channel_of (c\<lparr>buffer := []\<rparr>) # chs2) i s"
proof -
  have "\<not> (int i \<ge> ch_start (channel_of c) \<and> int i < ch_end (channel_of c))"
    using assms by (simp add: channel_of_def) linarith
  moreover have "\<not> (int i \<ge> ch_start (channel_of (c\<lparr>buffer := []\<rparr>))
                   \<and> int i < ch_end (channel_of (c\<lparr>buffer := []\<rparr>)))"
    by (simp add: channel_of_def startSampleOf_def)
  ultimately have
    "filter (\<lambda>ch. int i \<ge> ch_start ch \<and> int i < ch_end ch) (chs1 @ channel_of c # chs2)
     = filter (\<lambda>ch. int i \<ge> ch_start ch \<and> int i < ch_end ch) (chs1 @ channel_of (c\<lparr>buffer := []\<rparr>) # chs2)"
    by simp
  then show ?thesis
    by (simp only: compressSample_def)
qed

lemma mixAudioBuffers_eq:
  "mixAudioBuffers bs d
   = map (\<lambda>i. compressSample (snd (accumulate bs d)) i (applySoftLimiter (fst (accumulate bs d)) ! i))
       [0..<nat \<lceil>d * targetSampleRate\<rceil>]"
proof -
  have "length (applySoftLimiter (fst (accumulate bs d))) = nat \<lceil>d * targetSampleRate\<rceil>"
    by (simp add: applySoftLimiter_def length_accumulate)
  then show ?thesis
    by (simp add: mixAudioBuffers_def compressOverlapRegions_def case_prod_beta)
qed

text \<open>
  C6, as stated, fails for a clip with a negative start whose samples reach index 0:
  the write guard has no lower bound, the typed array drops only the writes at negative
  indices, and the rest of the clip is mixed in. A two-sample clip starting one sample
  before the buffer puts its second sample at index 0.
\<close>

theorem negative_start_counterexample:
  "AudioClip.startTime (clip [1/2, 1/2] (- (1/24000)) None) < 0
   \<and> mixAudioBuffers [clip [1/2, 1/2] (- (1/24000)) None] (1/24000) = [1/2]
   \<and> mixAudioBuffers [] (1/24000) = [0]"
  by (simp add: mix_eval floor_minus)

text \<open>
  C6, amended. A clip whose whole sample range lies outside the buffer (it ends at or
  before index 0, or starts at or after the buffer's length) adds nothing to any sample
  of the result: the mix is the one obtained with the clip's samples removed, the clip
  still counting in the number of sources. Nothing is raised.
\<close>

theorem mixAudioBuffers_outside:
  assumes "startSampleOf c + int (length (buffer c)) \<le> 0
           \<or> int (nat \<lceil>d * targetSampleRate\<rceil>) \<le> startSampleOf c"
  shows "mixAudioBuffers (cs1 @ c # cs2) d = mixAudioBuffers (cs1 @ c\<lparr>buffer := []\<rparr> # cs2) d"
proof -
  let ?N = "nat \<lceil>d * targetSampleRate\<rceil>"
  let ?n = "length (cs1 @ c # cs2)"
  let ?c' = "c\<lparr>buffer := []\<rparr>"
  let ?f = "\<lambda>out c. mix_clip ?n c out"
  let ?mid = "foldl ?f (replicate ?N 0) cs1"
  have n: "length (cs1 @ ?c' # cs2) = ?n" by simp
  have "length ?mid = ?N" by simp
  then have m: "mix_clip ?n c ?mid = ?mid"
    using assms by (intro mix_clip_outside) simp
  have a: "fst (accumulate (cs1 @ c # cs2) d) = fst (accumulate (cs1 @ ?c' # cs2) d)"
    unfolding accumulate_def n fst_mix_loop
    by (simp only: fst_conv foldl_append foldl_Cons m mix_clip_empty)
  have s: "snd (accumulate (cs1 @ c # cs2) d) = map channel_of cs1 @ channel_of c # map channel_of cs2"
    "snd (accumulate (cs1 @ ?c' # cs2) d) = map channel_of cs1 @ channel_of ?c' # map channel_of cs2"
    by (simp_all add: accumulate_def snd_mix_loop)
  have "mixAudioBuffers (cs1 @ c # cs2) d
        = map (\<lambda>i. compressSample (snd (accumulate (cs1 @ c # cs2) d)) i
                 (applySoftLimiter (fst (accumulate (cs1 @ c # cs2) d)) ! i)) [0..<?N]"
    by (rule mixAudioBuffers_eq)
  also have "\<dots> = map (\<lambda>i. compressSample (snd (accumulate (cs1 @ ?c' # cs2) d)) i
                 (applySoftLimiter (fst (accumulate (cs1 @ c # cs2) d)) ! i)) [0..<?N]"
    unfolding s by (rule map_cong) (simp_all add: compressSample_outside[OF assms])
  also have "\<dots> = mixAudioBuffers (cs1 @ ?c' # cs2) d"
    unfolding a by (rule mixAudioBuffers_eq[symmetric])
  finally show ?thesis .
qed

theorem mixAudioBuffers_outside_witness:
  "mixAudioBuffers ([] @ clip [1, 1] (- (1/12000)) None # []) (1/24000)
   = mixAudioBuffers ([] @ (clip [1, 1] (- (1/12000)) None)\<lparr>buffer := []\<rparr> # []) (1/24000)
   \<and> mixAudioBuffers [clip [1, 1] (- (1/12000)) None] (1/24000) = [0]"
proof -
  have h: "startSampleOf (clip [1, 1] (- (1/12000)) None) + int (length (buffer (clip [1, 1] (- (1/12000)) None))) \<le> 0
    \<or> int (nat \<lceil>1/24000 * targetSampleRate\<rceil>) \<le> startSampleOf (clip [1, 1] (- (1/12000)) None)"
    by (simp add: startSampleOf_def clip_def targetSampleRate_def)
  have "mixAudioBuffers [(clip [1, 1] (- (1/12000)) None)\<lparr>buffer := []\<rparr>] (1/24000) = [0]"
    by (simp add: mix_eval)
  then show ?thesis
    using mixAudioBuffers_outside [OF h, of "[]" "[]"] by simp
qed

text \<open>
  C7. Two clips of \<open>L\<close> samples of amplitude 1.0 each, volume 1, with disjoint sample
  ranges inside the buffer: after the accumulation step (before the limiter) the buffer
  holds \<open>1 / sqrt 2\<close> at the positions of either clip and exactly 0 everywhere else.
\<close>

theorem accumulate_two_disjoint:
  assumes "buffer c1 = replicate L 1" and "buffer c2 = replicate L 1"
    and "volume c1 = None \<or> volume c1 = Some 1" and "volume c2 = None \<or> volume c2 = Some 1"
    and "0 \<le> startSampleOf c1" and "startSampleOf c1 + int L \<le> int (length (fst (accumulate [c1, c2] d)))"
    and "0 \<le> startSampleOf c2" and "startSampleOf c2 + int L \<le> int (length (fst (accumulate [c1, c2] d)))"
    and "startSampleOf c1 + int L \<le> startSampleOf c2 \<or> startSampleOf c2 + int L \<le> startSampleOf c1"
    and "j < length (fst (accumulate [c1, c2] d))"
  shows "fst (accumulate [c1, c2] d) ! j =
           (if (startSampleOf c1 \<le> int j \<and> int j < startSampleOf c1 + int L)
               \<or> (startSampleOf c2 \<le> int j \<and> int j < startSampleOf c2 + int L)
            then 1 / sqrt 2 else 0)"
proof -
  let ?n = "nat \<lceil>d * targetSampleRate\<rceil>"
  have j: "j < ?n" using assms(10) by (simp add: length_accumulate)
  have g1: "calculateNormalizedGain 2 (case volume c1 of None \<Rightarrow> 1 | Some v \<Rightarrow> v) = 1 / sqrt 2"
    using assms(3) by (auto simp: calculateNormalizedGain_def)
  have g2: "calculateNormalizedGain 2 (case volume c2 of None \<Rightarrow> 1 | Some v \<Rightarrow> v) = 1 / sqrt 2"
    using assms(4) by (auto simp: calculateNormalizedGain_def)
  have a: "fst (accumulate [c1, c2] d) = mix_clip 2 c2 (mix_clip 2 c1 (replicate ?n 0))"
    by (simp add: accumulate_def numeral_2_eq_2)
  have r1: "replicate L (1::real) ! nat (int j - startSampleOf c1) = 1"
    if "startSampleOf c1 \<le> int j" "int j < startSampleOf c1 + int L"
    using that by (intro nth_replicate) linarith
  have r2: "replicate L (1::real) ! nat (int j - startSampleOf c2) = 1"
    if "startSampleOf c2 \<le> int j" "int j < startSampleOf c2 + int L"
    using that by (intro nth_replicate) linarith
  have m1: "mix_clip 2 c1 (replicate ?n 0) ! j =
        (if startSampleOf c1 \<le> int j \<and> int j < startSampleOf c1 + int L then 1 / sqrt 2 else 0)"
  proof (cases "startSampleOf c1 \<le> int j \<and> int j < startSampleOf c1 + int L")
    case True
    then show ?thesis using j r1 by (simp add: nth_mix_clip assms(1) g1)
  next
    case False
    then show ?thesis using j by (auto simp add: nth_mix_clip assms(1))
  qed
  have "mix_clip 2 c2 (mix_clip 2 c1 (replicate ?n 0)) ! j =
        (if startSampleOf c1 \<le> int j \<and> int j < startSampleOf c1 + int L then 1 / sqrt 2 else 0)
        + (if startSampleOf c2 \<le> int j \<and> int j < startSampleOf c2 + int L then 1 / sqrt 2 else 0)"
  proof (cases "startSampleOf c2 \<le> int j \<and> int j < startSampleOf c2 + int L")
    case True
    then show ?thesis using j r2 by (simp add: nth_mix_clip[of j "mix_clip 2 c1 (replicate ?n 0)"] assms(2) g2 m1)
  next
    case False
    then show ?thesis using j by (auto simp add: nth_mix_clip[of j "mix_clip 2 c1 (replicate ?n 0)"] assms(2) m1)
  qed
  also have "\<dots> = (if (startSampleOf c1 \<le> int j \<and> int j < startSampleOf c1 + int L)
               \<or> (startSampleOf c2 \<le> int j \<and> int j < startSampleOf c2 + int L)
            then 1 / sqrt 2 else 0)"
    using assms(9) by auto
  finally show ?thesis using a by simp
qed

theorem mixAudioBuffers_bounded_witness:
  "0 < length (mixAudioBuffers [clip [1] 0 None] (1/24000))
   \<and> (\<bar>fst (accumulate [clip [1] 0 None] (1/24000)) ! 0\<bar> \<le> 3/4
      \<or> (4/5 \<le> \<bar>fst (accumulate [clip [1] 0 None] (1/24000)) ! 0\<bar>
         \<and> \<bar>fst (accumulate [clip [1] 0 None] (1/24000)) ! 0\<bar> \<le> 16/5))
   \<and> \<bar>mixAudioBuffers [clip [1] 0 None] (1/24000) ! 0\<bar> \<le> 1"
proof -
  have h1: "0 < length (mixAudioBuffers [clip [1] 0 None] (1/24000))"
    by (simp add: mix_eval)
  have h2: "\<bar>fst (accumulate [clip [1] 0 None] (1/24000)) ! 0\<bar> \<le> 3/4
      \<or> (4/5 \<le> \<bar>fst (accumulate [clip [1] 0 None] (1/24000)) ! 0\<bar>
         \<and> \<bar>fst (accumulate [clip [1] 0 None] (1/24000)) ! 0\<bar> \<le> 16/5)"
    by (simp add: mix_eval)
  show ?thesis
    using mixAudioBuffers_bounded [OF h1 h2] h1 h2 by blast
qed

theorem accumulate_two_disjoint_witness:
  "fst (accumulate [clip [1] 0 None, clip [1] (1/24000) None] (1/12000)) ! 0 = 1 / sqrt 2
   \<and> fst (accumulate [clip [1] 0 None, clip [1] (1/24000) None] (1/12000)) ! 1 = 1 / sqrt 2
   \<and> length (fst (accumulate [clip [1] 0 None, clip [1] (1/24000) None] (1/12000))) = 2"
proof -
  let ?c1 = "clip [1] 0 None" and ?c2 = "clip [1] (1/24000) None"
  have l: "length (fst (accumulate [?c1, ?c2] (1/12000))) = 2"
    by (simp add: length_accumulate targetSampleRate_def)
  have b1: "buffer ?c1 = replicate 1 1" and b2: "buffer ?c2 = replicate 1 1"
    by (simp_all add: clip_def)
  have v1: "volume ?c1 = None \<or> volume ?c1 = Some 1" and v2: "volume ?c2 = None \<or> volume ?c2 = Some 1"
    by (simp_all add: clip_def)
  have s1: "startSampleOf ?c1 = 0" and s2: "startSampleOf ?c2 = 1"
    by (simp_all add: startSampleOf_def clip_def targetSampleRate_def)
  have p1: "0 \<le> startSampleOf ?c1"
    and q1: "startSampleOf ?c1 + int 1 \<le> int (length (fst (accumulate [?c1, ?c2] (1/12000))))"
    and p2: "0 \<le> startSampleOf ?c2"
    and q2: "startSampleOf ?c2 + int 1 \<le> int (length (fst (accumulate [?c1, ?c2] (1/12000))))"
    and d: "startSampleOf ?c1 + int 1 \<le> startSampleOf ?c2 \<or> startSampleOf ?c2 + int 1 \<le> startSampleOf ?c1"
    by (simp_all add: s1 s2 l)
  have j0: "0 < length (fst (accumulate [?c1, ?c2] (1/12000)))"
    and j1: "1 < length (fst (accumulate [?c1, ?c2] (1/12000)))"
    by (simp_all add: l)
  show ?thesis
    using accumulate_two_disjoint [OF b1 b2 v1 v2 p1 q1 p2 q2 d j0]
      accumulate_two_disjoint [OF b1 b2 v1 v2 p1 q1 p2 q2 d j1] l
    by (simp add: s1 s2)
qed

section \<open>Properties of analyzeAudioPeaks\<close>

lemma peak_sum_silence: "\<forall>x\<in>set data. x = 0 \<Longrightarrow> peak_sum data (0, 0) = (0, 0)"
  by (induction data) simp_all

lemma analyzeClip_silence:
  assumes "data \<noteq> []" and "\<forall>x\<in>set data. x = 0"
  shows "analyzeClip data = \<lparr> peak = Fin 0, rms = Fin 0, recommendedGain = Fin (3/2) \<rparr>"
  using assms by (simp add: analyzeClip_def peak_sum_silence Let_def)

lemma analyzeAudioPeaks_loop_other:
  "\<forall>(d, k') \<in> set bs. k' \<noteq> k \<Longrightarrow> analyzeAudioPeaks_loop bs m k = m k"
  by (induction bs arbitrary: m) auto

lemma analyzeAudioPeaks_loop_append:
  "analyzeAudioPeaks_loop (xs @ ys) m = analyzeAudioPeaks_loop ys (analyzeAudioPeaks_loop xs m)"
  by (induction xs arbitrary: m) auto

text \<open>
  C10. For a clip of non-empty silence that is the last clip of its speaker,
  \<open>analyzeAudioPeaks\<close> stores peak 0, rms 0 and recommendedGain 1.5: the quotient
  \<open>0.95 / 0\<close> is \<open>Infinity\<close>, and \<open>Math.min(Infinity, 1.5)\<close> is 1.5.
\<close>

theorem analyzeAudioPeaks_silence:
  assumes "data \<noteq> []" and "\<forall>x\<in>set data. x = 0" and "\<forall>(d, k') \<in> set later. k' \<noteq> k"
  shows "analyzeAudioPeaks (earlier @ (data, k) # later) k
         = Some \<lparr> peak = Fin 0, rms = Fin 0, recommendedGain = Fin (3/2) \<rparr>"
  using assms
  by (simp add: analyzeAudioPeaks_def analyzeAudioPeaks_loop_append analyzeAudioPeaks_loop_other
      analyzeClip_silence)

theorem analyzeAudioPeaks_silence_witness:
  "analyzeAudioPeaks ([] @ ([0, 0], ''A'') # [([1/2], ''B'')]) ''A''
     = Some \<lparr> peak = Fin 0, rms = Fin 0, recommendedGain = Fin (3/2) \<rparr>"
proof -
  have h1: "[0, 0 :: real] \<noteq> []" by simp
  have h2: "\<forall>x\<in>set [0, 0 :: real]. x = 0" by simp
  have h3: "\<forall>(d, k') \<in> set [([1/2 :: real], ''B'')]. k' \<noteq> ''A''" by simp
  show ?thesis
    using analyzeAudioPeaks_silence [OF h1 h2 h3, of "[]"] .
qed

section \<open>Properties of batchOptimizeTranslations\<close>

lemma segments_push_group:
  "concat (map SegmentGroup.segments (push_group groups cg cs))
   = concat (map SegmentGroup.segments groups) @ (case cg of None \<Rightarrow> [] | Some g \<Rightarrow> g)"
  by (simp add: push_group_def split: option.splits)

lemma group_loop_started:
  "concat (map SegmentGroup.segments (finish_groups (group_loop xs (groups, Some g, cs))))
   = concat (map SegmentGroup.segments groups) @ g @ xs"
proof (induction xs arbitrary: groups g cs)
  case Nil
  show ?case by (simp add: segments_push_group)
next
  case (Cons x xs)
  show ?case by (simp add: Cons.IH segments_push_group)
qed

lemma group_loop_initial:
  "concat (map SegmentGroup.segments (finish_groups (group_loop xs ([], None, []))))
   = dropWhile (\<lambda>s. DialogueSegment.speakerId s = []) xs"
proof (induction xs)
  case Nil
  show ?case by (simp add: push_group_def)
next
  case (Cons x xs)
  show ?case
  proof (cases "DialogueSegment.speakerId x = []")
    case True
    then show ?thesis using Cons.IH by simp
  next
    case False
    then show ?thesis by (simp add: group_loop_started push_group_def)
  qed
qed

lemma groupSegmentsBySpeaker_concat:
  "concat (map SegmentGroup.segments (groupSegmentsBySpeaker segs))
   = dropWhile (\<lambda>s. DialogueSegment.speakerId s = []) segs"
  by (simp add: groupSegmentsBySpeaker_def group_loop_initial)

lemma timing_translate_group:
  "map timing_of_translated (translate_group f segs lang profiles grp)
   = map timing_of_segment (SegmentGroup.segments grp)"
  by (simp add: translate_group_def Let_def timing_of_translated_def timing_of_segment_def)

lemma batchOptimizeTranslations_timing:
  "map timing_of_translated (batchOptimizeTranslations f segs lang profiles)
   = map timing_of_segment (dropWhile (\<lambda>s. DialogueSegment.speakerId s = []) segs)"
proof -
  have "map timing_of_translated (batchOptimizeTranslations f segs lang profiles)
        = concat (map (\<lambda>g. map timing_of_segment (SegmentGroup.segments g)) (groupSegmentsBySpeaker segs))"
    by (simp add: batchOptimizeTranslations_def map_concat timing_translate_group comp_def)
  also have "\<dots> = map timing_of_segment (concat (map SegmentGroup.segments (groupSegmentsBySpeaker segs)))"
    by (simp add: map_concat comp_def)
  finally show ?thesis by (simp add: groupSegmentsBySpeaker_concat)
qed

lemma batchOptimizeTranslations_preserves:
  assumes "segs = [] \<or> DialogueSegment.speakerId (hd segs) \<noteq> []"
  shows "map timing_of_translated (batchOptimizeTranslations f segs lang profiles)
         = map timing_of_segment segs"
  using assms by (cases segs) (simp_all add: batchOptimizeTranslations_timing)

text \<open>
  C8. The grouping starts with \<open>currentSpeakerId = ''\<close> and no open group, so leading
  segments whose speakerId is the empty string match the \<open>else\<close> branch and are pushed
  nowhere: a batch of one such segment returns nothing, and in a batch of two only the
  second one is translated. Everywhere else the claim holds
  (\<open>batchOptimizeTranslations_preserves\<close>).
\<close>

theorem batchOptimizeTranslations_drops_empty_speaker:
  "batchOptimizeTranslations f [mkSeg [] 0 1] lang profiles = []
   \<and> batchOptimizeTranslations f [mkSeg [] 0 1, mkSeg ''A'' 1 2] lang profiles
     = [\<lparr> TranslatedSegment.speakerId = ''A'',
          translatedText = f [] lang '' '' (profileDescriptionOf (profiles ''A'')),
          TranslatedSegment.startTime = 1, TranslatedSegment.endTime = 2 \<rparr>]"
  by (simp add: batchOptimizeTranslations_def groupSegmentsBySpeaker_def push_group_def
      translate_group_def contextTextOf_def mkSeg_def Let_def)

section \<open>Properties of the PCM codec\<close>

lemma int16_bytes_roundtrip:
  "word_cat (ucast (drop_bit 8 w) :: 8 word) (ucast w :: 8 word) = (w :: 16 word)"
  by (rule bit_word_eqI) (auto simp: bit_simps)

lemma sint_toInt16:
  assumes "- 32768 \<le> k" and "k < 32768"
  shows "sint (word_of_int k :: 16 word) = k"
  using assms by (simp add: sint_sbintrunc' signed_take_bit_int_eq_self)

lemma js_trunc_range:
  assumes "- 1 \<le> x" and "x \<le> 1"
  shows "- 32767 \<le> js_trunc (x * 32767) \<and> js_trunc (x * 32767) \<le> 32767"
proof (cases "x \<ge> 0")
  case True
  then have "js_trunc (x * 32767) = \<lfloor>x * 32767\<rfloor>" by (simp add: js_trunc_def)
  moreover have "0 \<le> \<lfloor>x * 32767\<rfloor>" using True by simp
  moreover have "\<lfloor>x * 32767\<rfloor> \<le> 32767" using assms(2) by (simp add: floor_le_iff)
  ultimately show ?thesis by simp
next
  case False
  then have "js_trunc (x * 32767) = \<lceil>x * 32767\<rceil>" by (simp add: js_trunc_def)
  moreover have "\<lceil>x * 32767\<rceil> \<le> 0" using False by (simp add: ceiling_le_iff)
  moreover have "- 32767 \<le> \<lceil>x * 32767\<rceil>" using assms(1) by (simp add: le_ceiling_iff)
  ultimately show ?thesis by simp
qed

lemma js_trunc_error:
  assumes "- 1 \<le> x" and "x \<le> 1"
  shows "\<bar>real_of_int (js_trunc (x * 32767)) / 32768 - x\<bar> < 1 / 16384"
proof (cases "x \<ge> 0")
  case True
  then have t: "js_trunc (x * 32767) = \<lfloor>x * 32767\<rfloor>" by (simp add: js_trunc_def)
  define k where "k = real_of_int \<lfloor>x * 32767\<rfloor>"
  have "k \<le> x * 32767" "x * 32767 < k + 1"
    unfolding k_def by linarith+
  then have "- 2 < k - 32768 * x" "k - 32768 * x < 2"
    using assms True by linarith+
  then have "\<bar>k / 32768 - x\<bar> < 1 / 16384"
    by (simp add: abs_less_iff field_simps)
  then show ?thesis unfolding t k_def .
next
  case False
  then have t: "js_trunc (x * 32767) = \<lceil>x * 32767\<rceil>" by (simp add: js_trunc_def)
  define k where "k = real_of_int \<lceil>x * 32767\<rceil>"
  have "x * 32767 \<le> k" "k - 1 < x * 32767"
    unfolding k_def by linarith+
  then have "- 2 < k - 32768 * x" "k - 32768 * x < 2"
    using assms False by linarith+
  then have "\<bar>k / 32768 - x\<bar> < 1 / 16384"
    by (simp add: abs_less_iff field_simps)
  then show ?thesis unfolding t k_def .
qed

lemma length_wavSampleBytes: "length (wavSampleBytes xs) = 2 * length xs"
  by (induction xs) (simp_all add: wavSampleBytes_def setInt16_le_def)

lemma nth_wavSampleBytes:
  "i < length xs \<Longrightarrow>
   wavSampleBytes xs ! (i * 2) = ucast (sampleToInt16 (xs ! i))
   \<and> wavSampleBytes xs ! (i * 2 + 1) = ucast (drop_bit 8 (sampleToInt16 (xs ! i)))"
proof (induction xs arbitrary: i)
  case Nil
  then show ?case by simp
next
  case (Cons x xs)
  have c: "wavSampleBytes (x # xs)
           = ucast (sampleToInt16 x) # ucast (drop_bit 8 (sampleToInt16 x)) # wavSampleBytes xs"
    by (simp add: wavSampleBytes_def setInt16_le_def)
  show ?case
  proof (cases i)
    case 0
    then show ?thesis by (simp add: c)
  next
    case (Suc j)
    then have "j < length xs" using Cons.prems by simp
    then show ?thesis using Cons.IH[of j] Suc by (simp add: c)
  qed
qed

lemma getInt16_le_wavSampleBytes:
  assumes "i < length xs"
  shows "getInt16_le (wavSampleBytes xs) (i * 2) = Some (sampleToInt16 (xs ! i))"
proof -
  have "i * 2 + 2 \<le> length (wavSampleBytes xs)"
    using assms by (simp add: length_wavSampleBytes)
  then show ?thesis
    using nth_wavSampleBytes[OF assms]
    by (simp add: getInt16_le_def int16_bytes_roundtrip)
qed

lemma those_map_Some: "those (map (\<lambda>i. Some (f i)) is) = Some (map f is)"
  by (induction "is") simp_all

lemma decode_channel_wavSampleBytes:
  "decode_channel (wavSampleBytes xs) 1 (real (length xs)) 0
   = Some (map (\<lambda>x. real_of_int (sint (sampleToInt16 x)) / 32768) xs)"
proof -
  let ?f = "\<lambda>x. real_of_int (sint (sampleToInt16 x)) / 32768"
  have "map (\<lambda>i. map_option (\<lambda>sample. real_of_int (sint sample) / 32768)
                  (getInt16_le (wavSampleBytes xs) ((i * 1 + 0) * 2))) [0..<length xs]
        = map (\<lambda>i. Some (?f (xs ! i))) [0..<length xs]"
    by (rule map_cong) (simp_all add: getInt16_le_wavSampleBytes)
  moreover have "map (\<lambda>i. ?f (xs ! i)) [0..<length xs] = map ?f xs"
  proof -
    have "map (\<lambda>i. ?f (xs ! i)) [0..<length xs] = map ?f (map ((!) xs) [0..<length xs])"
      by (simp only: map_map comp_def)
    then show ?thesis by (simp only: map_nth)
  qed
  ultimately show ?thesis
    by (simp only: decode_channel_def those_map_Some floor_of_nat ceiling_of_nat nat_int
        option.map take_all_iff length_map length_upt) simp
qed

lemma manualDecodeAudioData_wavSampleBytes:
  "manualDecodeAudioData (wavSampleBytes xs) 1
   = Some [map (\<lambda>x. real_of_int (sint (sampleToInt16 x)) / 32768) xs]"
proof (cases "xs = []")
  case True
  then show ?thesis by (simp add: manualDecodeAudioData_def wavSampleBytes_def)
next
  case False
  have f: "real (length (wavSampleBytes xs)) / 2 / real (1::nat) = real (length xs)"
    by (simp add: length_wavSampleBytes)
  have u: "[0..<1::nat] = [0]" by simp
  have "manualDecodeAudioData (wavSampleBytes xs) 1
        = those [decode_channel (wavSampleBytes xs) 1 (real (length xs)) 0]"
    using False unfolding manualDecodeAudioData_def Let_def f u by simp
  then show ?thesis
    by (simp only: decode_channel_wavSampleBytes those.simps option.case option.map)
qed

lemma sint_sampleToInt16:
  assumes "- 1 \<le> x" and "x \<le> 1"
  shows "sint (sampleToInt16 x) = js_trunc (x * 32767)"
proof -
  have c: "max (- 1) (min 1 x) = x" using assms by simp
  have "- 32768 \<le> js_trunc (x * 32767)" "js_trunc (x * 32767) < 32768"
    using js_trunc_range[OF assms] by linarith+
  then show ?thesis
    by (simp only: sampleToInt16_def toInt16_def c sint_toInt16)
qed

lemma wav_payload: "drop 44 (audioBufferToWavBlob numChannels sampleRate data) = wavSampleBytes data"
  by (simp add: audioBufferToWavBlob_def writeString_def setUint16_le_def setUint32_le_def Let_def)

text \<open>
  C4, amended. For samples in \<open>[-1, 1]\<close>, decoding the encoded samples as mono PCM
  succeeds, returns as many samples, and each differs from its original by less than
  \<open>2 / 32768\<close>: the encoder scales by 32767 and truncates toward zero, the decoder divides
  by 32768.
\<close>

theorem wav_roundtrip_error:
  assumes "\<forall>x\<in>set xs. - 1 \<le> x \<and> x \<le> 1"
  shows "\<exists>ys. manualDecodeAudioData (wavSampleBytes xs) 1 = Some [ys]
              \<and> length ys = length xs
              \<and> (\<forall>i<length xs. \<bar>ys ! i - xs ! i\<bar> < 1 / 16384)"
proof -
  let ?ys = "map (\<lambda>x. real_of_int (sint (sampleToInt16 x)) / 32768) xs"
  have "\<bar>?ys ! i - xs ! i\<bar> < 1 / 16384" if "i < length xs" for i
  proof -
    have r: "- 1 \<le> xs ! i" "xs ! i \<le> 1" using assms that by simp_all
    have "?ys ! i = real_of_int (js_trunc (xs ! i * 32767)) / 32768"
      using that by (simp only: nth_map sint_sampleToInt16[OF r])
    then show ?thesis
      using js_trunc_error[OF r] by (simp only:)
  qed
  then show ?thesis
    using manualDecodeAudioData_wavSampleBytes[of xs] by simp
qed

theorem wav_roundtrip_error_witness:
  "\<exists>ys. manualDecodeAudioData (wavSampleBytes [9999/10000, - 1/2]) 1 = Some [ys]
        \<and> length ys = 2
        \<and> \<bar>ys ! 0 - 9999/10000\<bar> < 1 / 16384
        \<and> \<bar>ys ! 1 - (- 1/2)\<bar> < 1 / 16384"
proof -
  have h: "\<forall>x\<in>set [9999/10000, - 1/2 :: real]. - 1 \<le> x \<and> x \<le> 1" by simp
  obtain ys where d: "manualDecodeAudioData (wavSampleBytes [9999/10000, - 1/2]) 1 = Some [ys]"
    and l: "length ys = length [9999/10000, - 1/2 :: real]"
    and e: "\<forall>i<length [9999/10000, - 1/2 :: real]. \<bar>ys ! i - [9999/10000, - 1/2] ! i\<bar> < 1 / 16384"
    using wav_roundtrip_error [OF h] by blast
  have "\<bar>ys ! 0 - 9999/10000\<bar> < 1 / 16384"
    using e [rule_format, of 0] by simp
  moreover have "\<bar>ys ! 1 - (- 1/2)\<bar> < 1 / 16384"
    using e [rule_format, of 1] by simp
  ultimately show ?thesis using d l by simp
qed

text \<open>
  C4, as stated, fails: the sample 0.9999 is encoded as \<open>trunc (32763.7233) = 32763\<close> and
  decoded as \<open>32763 / 32768\<close>, about 0.99985, off by more than \<open>1 / 32768\<close>.
\<close>

theorem wav_roundtrip_counterexample:
  "manualDecodeAudioData (wavSampleBytes [9999/10000]) 1 = Some [[32763/32768]]
   \<and> 1 / 32768 < \<bar>32763/32768 - 9999/10000 :: real\<bar>"
proof -
  have r: "- 1 \<le> (9999/10000 :: real)" "(9999/10000 :: real) \<le> 1" by simp_all
  have "js_trunc (9999/10000 * 32767) = 32763"
    by (simp add: js_trunc_def)
  then have "sint (sampleToInt16 (9999/10000)) = 32763"
    using sint_sampleToInt16[OF r] by simp
  then have "manualDecodeAudioData (wavSampleBytes [9999/10000]) 1 = Some [[32763/32768]]"
    by (simp only: manualDecodeAudioData_wavSampleBytes list.map) simp
  then show ?thesis by simp
qed

end
